theory Spec2Isabelle
  imports Complex_Main
begin

section \<open>JavaScript numbers\<close>

text \<open>
  Directions, timestamps, band boundaries and options are finite JavaScript numbers and
  are modelled as reals (rounding of doubles is not modelled). A speed can also be
  \<open>NaN\<close>: the delta decoder of \<open>preload\<close> produces it itself when it reads
  \<open>this.bands[band]\<close> out of range, so the speed handed to \<open>#update\<close> is a
  \<open>jsnum\<close>. Every comparison with \<open>NaN\<close> is false, as in JavaScript.
\<close>

datatype jsnum = NaN | Num real

text \<open>\<open>x < y\<close>\<close>
fun js_lt :: "jsnum \<Rightarrow> real \<Rightarrow> bool" where
  "js_lt (Num x) y = (x < y)"
| "js_lt NaN y = False"

text \<open>\<open>y > x\<close>\<close>
fun js_gt :: "real \<Rightarrow> jsnum \<Rightarrow> bool" where
  "js_gt y (Num x) = (y > x)"
| "js_gt y NaN = False"

text \<open>\<open>x >= y\<close>\<close>
fun js_ge :: "jsnum \<Rightarrow> real \<Rightarrow> bool" where
  "js_ge (Num x) y = (x \<ge> y)"
| "js_ge NaN y = False"

text \<open>\<open>x == y\<close> on numbers\<close>
fun js_eq :: "jsnum \<Rightarrow> jsnum \<Rightarrow> bool" where
  "js_eq (Num x) (Num y) = (x = y)"
| "js_eq _ _ = False"

text \<open>\<open>Math.max(0, x)\<close>\<close>
fun js_max0 :: "jsnum \<Rightarrow> jsnum" where
  "js_max0 (Num x) = Num (max 0 x)"
| "js_max0 NaN = NaN"

text \<open>\<open>x % y\<close> on finite numbers with \<open>y \<noteq> 0\<close>: the remainder of the division
  truncated towards zero, so the result has the sign of \<open>x\<close>.\<close>
definition js_rem :: "real \<Rightarrow> real \<Rightarrow> real" where
  "js_rem x y = x - y * of_int (if 0 \<le> x / y then \<lfloor>x / y\<rfloor> else \<lceil>x / y\<rceil>)"

section \<open>The wind rose: data\<close>

text \<open>An entry of \<open>this.q\<close>. The fields \<open>x\<close>, \<open>y\<close> and \<open>next\<close> are used by the
  animation and the per-bucket chain only and are left out.\<close>
record msg =
  m_dir :: real
  m_speed :: jsnum
  m_when :: real

text \<open>\<open>this.options\<close> (the fields the aggregator reads) and \<open>this.bands\<close>, which is
  loaded once by \<open>#loadBands\<close>. A cap of 0 is falsy and means "no cap".\<close>
record config =
  max_data_count :: nat
  max_data_age :: real
  arc :: real
  bands :: "real list"

text \<open>The mutable fields of a \<open>WindRose\<close>. A bucket \<open>{count, oldest, newest, elt}\<close> is
  modelled by its \<open>count\<close>: the other fields are written but never read by the
  aggregation. \<open>rose ! i ! j\<close> is \<open>this.rose[i][j].count\<close>, \<open>rose0\<close> is
  \<open>this.rose0.count\<close>, and \<open>numarcs\<close> is \<open>this.rose.length\<close>.\<close>
record wstate =
  q :: "msg list"
  rose :: "int list list"
  rose0 :: int
  preloading :: bool

datatype error = TypeError | MaxFreqError

datatype outcome = Returned | Threw error

text \<open>The bucket a reading is counted in: \<open>this.rose0\<close> or \<open>this.rose[arc][band]\<close>.\<close>
datatype bucket = Sentinel | Cell int nat

section \<open>Classification\<close>

text \<open>\<open>#update\<close>, lines 250-251.\<close>
definition norm_dir :: "jsnum \<Rightarrow> real \<Rightarrow> real" where
  "norm_dir speed dir = (if js_eq speed (Num 0) then 0 else js_rem (js_rem dir 360 + 360) 360)"

definition mk_msg :: "real \<Rightarrow> jsnum \<Rightarrow> real \<Rightarrow> msg" where
  "mk_msg dir speed when =
     (let speed' = js_max0 speed
      in \<lparr>m_dir = norm_dir speed' dir, m_speed = speed', m_when = when\<rparr>)"

text \<open>\<open>#update\<close>, lines 310-315: \<open>for (band=0; band < bands.length; band++)
  if (speed < bands[band]) break\<close>. The argument is the part of \<open>bands\<close> from the
  loop index on; the result counts the iterations that did not break. The write to the
  key element's style in the loop body is drawing and is left out.\<close>
fun ins_band :: "real list \<Rightarrow> jsnum \<Rightarrow> nat" where
  "ins_band [] speed = 0"
| "ins_band (b # bs) speed = (if js_lt speed b then 0 else Suc (ins_band bs speed))"

text \<open>\<open>#update\<close>, lines 288-292, the same loop on eviction:
  \<open>if (this.bands[delmsg.band] > delmsg.speed) break\<close>.\<close>
fun del_band :: "real list \<Rightarrow> jsnum \<Rightarrow> nat" where
  "del_band [] speed = 0"
| "del_band (b # bs) speed = (if js_gt b speed then 0 else Suc (del_band bs speed))"

text \<open>\<open>publishHistory\<close>, line 272:
  \<open>for (band = 0; band < req.bands.length && speed >= req.bands[band]; band++);\<close>\<close>
fun enc_band :: "real list \<Rightarrow> jsnum \<Rightarrow> nat" where
  "enc_band [] speed = 0"
| "enc_band (b # bs) speed = (if js_ge speed b then Suc (enc_band bs speed) else 0)"

text \<open>\<open>#update\<close>, lines 316-321 and 282-287: \<open>Math.round(dir / this.options.arc)\<close>,
  wrapped once. \<open>Math.round\<close> rounds a tie upwards, as \<open>round\<close> does.\<close>
definition arc_index :: "real \<Rightarrow> nat \<Rightarrow> real \<Rightarrow> int" where
  "arc_index arcw numarcs dir =
     (let a = round (dir / arcw)
      in if a < 0 then a + int numarcs
         else if a \<ge> int numarcs then a - int numarcs
         else a)"

text \<open>The bucket chosen for a queued reading when it is counted (lines 305-327).\<close>
definition bucket_of :: "config \<Rightarrow> nat \<Rightarrow> msg \<Rightarrow> bucket" where
  "bucket_of cfg numarcs m =
     (if js_eq (m_speed m) (Num 0) then Sentinel
      else Cell (arc_index (arc cfg) numarcs (m_dir m)) (ins_band (bands cfg) (m_speed m)))"

text \<open>The bucket chosen for a reading when it is evicted (lines 279-294).\<close>
definition del_bucket :: "config \<Rightarrow> nat \<Rightarrow> msg \<Rightarrow> bucket" where
  "del_bucket cfg numarcs m =
     (if js_eq (m_speed m) (Num 0) then Sentinel
      else Cell (arc_index (arc cfg) numarcs (m_dir m)) (del_band (bands cfg) (m_speed m)))"

text \<open>The index of the first boundary strictly greater than the speed, or the number of
  boundaries when there is none: the band as the specification words it.\<close>
definition first_greater :: "real list \<Rightarrow> real \<Rightarrow> nat" where
  "first_greater bs s = length (takeWhile (\<lambda>b. \<not> s < b) bs)"

section \<open>The windowed aggregator\<close>

text \<open>The constructor, lines 74-81 and 113-117: the number of arcs is
  \<open>Math.ceil(360 / options.arc)\<close>, \<open>options.arc\<close> is recomputed from it, and the rose
  has one empty row per arc. An \<open>arc\<close> option that is not positive is replaced by 20.\<close>
definition new_numarcs :: "real \<Rightarrow> nat" where
  "new_numarcs a = nat \<lceil>360 / (if a > 0 then a else 20)\<rceil>"

definition new_config :: "nat \<Rightarrow> real \<Rightarrow> real \<Rightarrow> real list \<Rightarrow> config" where
  "new_config cnt age a bs =
     \<lparr>max_data_count = cnt, max_data_age = age,
      arc = 360 / real (new_numarcs a), bands = bs\<rparr>"

definition new_state :: "real \<Rightarrow> wstate" where
  "new_state a = \<lparr>q = [], rose = replicate (new_numarcs a) [], rose0 = 0, preloading = False\<rparr>"

text \<open>Line 265: \<open>r.when == when && r.speed == speed && r.dir == dir\<close>.\<close>
definition same_reading :: "msg \<Rightarrow> msg \<Rightarrow> bool" where
  "same_reading r m \<longleftrightarrow> m_when r = m_when m \<and> js_eq (m_speed r) (m_speed m) \<and> m_dir r = m_dir m"

text \<open>Lines 263-272, the backward scan from index \<open>i\<close>: \<open>None\<close> is the
  \<open>return\<close> on a duplicate, \<open>Some\<close> the queue after \<open>splice(i, 0, msg)\<close>.\<close>
fun q_scan :: "msg \<Rightarrow> msg list \<Rightarrow> nat \<Rightarrow> msg list option" where
  "q_scan m xs 0 =
     (if same_reading (xs ! 0) m then None else Some (m # xs))"
| "q_scan m xs (Suc i) =
     (if same_reading (xs ! Suc i) m then None
      else if m_when (xs ! i) < m_when m then Some (take (Suc i) xs @ m # drop (Suc i) xs)
      else q_scan m xs i)"

text \<open>Lines 260-273.\<close>
definition q_insert :: "msg \<Rightarrow> msg list \<Rightarrow> msg list option" where
  "q_insert m xs =
     (if xs = [] \<or> m_when (last xs) < m_when m then Some (xs @ [m])
      else q_scan m xs (length xs - 1))"

text \<open>The loop condition of line 276. With the age cap set, \<open>this.q[0].when\<close> on an empty
  queue is a property read on \<open>undefined\<close> and throws.\<close>
definition evict_cond :: "config \<Rightarrow> real \<Rightarrow> msg list \<Rightarrow> error + bool" where
  "evict_cond cfg now xs =
     (if max_data_count cfg \<noteq> 0 \<and> length xs > max_data_count cfg then Inr True
      else if max_data_age cfg \<noteq> 0 then
        (case xs of [] \<Rightarrow> Inl TypeError
         | m # _ \<Rightarrow> Inr (now - m_when m > max_data_age cfg))
      else Inr False)"

text \<open>\<open>o.count += d\<close> on the bucket object \<open>o\<close>. \<open>this.rose[arc][band]\<close> is read as it
  is on eviction: a row or a cell that does not exist makes \<open>o\<close> undefined (or the read
  of the row throw), and \<open>o.count--\<close> throws.\<close>
definition bump_existing :: "bucket \<Rightarrow> int \<Rightarrow> wstate \<Rightarrow> error + wstate" where
  "bump_existing b d s =
     (case b of
        Sentinel \<Rightarrow> Inr (s\<lparr>rose0 := rose0 s + d\<rparr>)
      | Cell a band \<Rightarrow>
          if 0 \<le> a \<and> nat a < length (rose s) \<and> band < length (rose s ! nat a)
          then Inr (s\<lparr>rose := (rose s)[nat a := (rose s ! nat a)[band := rose s ! nat a ! band + d]]\<rparr>)
          else Inl TypeError)"

text \<open>Lines 323-328: the row is first extended with \<open>{count:0}\<close> cells up to \<open>band\<close>;
  \<open>this.rose[arc].length\<close> throws when the row does not exist.\<close>
definition count_new :: "config \<Rightarrow> msg \<Rightarrow> wstate \<Rightarrow> error + wstate" where
  "count_new cfg m s =
     (case bucket_of cfg (length (rose s)) m of
        Sentinel \<Rightarrow> Inr (s\<lparr>rose0 := rose0 s + 1\<rparr>)
      | Cell a band \<Rightarrow>
          if 0 \<le> a \<and> nat a < length (rose s)
          then (let row = rose s ! nat a;
                    row' = row @ replicate (Suc band - length row) 0
                in Inr (s\<lparr>rose := (rose s)[nat a := row'[band := row' ! band + 1]]\<rparr>))
          else Inl TypeError)"

text \<open>Lines 276-303, the eviction loop. \<open>xs\<close> is \<open>this.q\<close> (the \<open>q\<close> field of the
  state is written back from it). Every iteration takes the head off the queue with
  \<open>this.q.shift()\<close> and then decrements its bucket; the queue has lost its head when
  the decrement throws.\<close>
fun evict :: "config \<Rightarrow> real \<Rightarrow> msg list \<Rightarrow> wstate \<Rightarrow> outcome \<times> wstate" where
  "evict cfg now [] s =
     (case evict_cond cfg now [] of
        Inl e \<Rightarrow> (Threw e, s\<lparr>q := []\<rparr>)
      | Inr go \<Rightarrow> (if go then (Threw TypeError, s\<lparr>q := []\<rparr>) else (Returned, s\<lparr>q := []\<rparr>)))"
| "evict cfg now (d # rest) s =
     (case evict_cond cfg now (d # rest) of
        Inl e \<Rightarrow> (Threw e, s\<lparr>q := d # rest\<rparr>)
      | Inr go \<Rightarrow>
          if go then
            (case bump_existing (del_bucket cfg (length (rose s)) d) (- 1) (s\<lparr>q := rest\<rparr>) of
               Inl e \<Rightarrow> (Threw e, s\<lparr>q := rest\<rparr>)
             | Inr s' \<Rightarrow> evict cfg now rest s')
          else (Returned, s\<lparr>q := d # rest\<rparr>))"

text \<open>Lines 337-349: \<open>total\<close> (here \<open>n\<close>), the frequency of the sentinel, and the running maximum
  over the arcs of \<open>c / total\<close>, where \<open>c\<close> sums the counts of the arc's row.\<close>
definition arc_freq :: "nat \<Rightarrow> int list \<Rightarrow> real" where
  "arc_freq n row = real_of_int (sum_list row) / real n"

definition maxfreq :: "wstate \<Rightarrow> real" where
  "maxfreq s =
     (let n = length (q s)
      in foldl (\<lambda>mx row. if arc_freq n row > mx then arc_freq n row else mx)
           (real_of_int (rose0 s) / real n) (rose s))"

text \<open>The maximum per-arc frequency as a set maximum: the frequency of the sentinel
  and of every arc.\<close>
definition max_arc_frequency :: "wstate \<Rightarrow> real" where
  "max_arc_frequency s =
     Max (insert (real_of_int (rose0 s) / real (length (q s)))
            (arc_freq (length (q s)) ` set (rose s)))"

text \<open>Lines 247-336: the reading is queued, the window is trimmed, the reading is
  counted. \<open>None\<close> is the early \<open>return\<close> on a duplicate; an error carries the state
  the throw leaves behind.\<close>
definition update_window :: "config \<Rightarrow> real \<Rightarrow> msg \<Rightarrow> wstate \<Rightarrow> (error \<times> wstate + wstate) option" where
  "update_window cfg now m s =
     (case q_insert m (q s) of
        None \<Rightarrow> None
      | Some xs \<Rightarrow>
          (case evict cfg now xs s of
             (Threw e, s1) \<Rightarrow> Some (Inl (e, s1))
           | (Returned, s1) \<Rightarrow>
               (case count_new cfg m s1 of
                  Inl e \<Rightarrow> Some (Inl (e, s1))
                | Inr s2 \<Rightarrow> Some (Inr s2))))"

text \<open>\<open>#update(dir, speed, when)\<close> up to the throw of line 366; \<open>now\<close> is the value of
  \<open>Date.now()\<close>. What follows line 367 draws and changes none of the modelled fields.\<close>
definition update_priv :: "config \<Rightarrow> real \<Rightarrow> real \<Rightarrow> jsnum \<Rightarrow> real \<Rightarrow> wstate \<Rightarrow> outcome \<times> wstate" where
  "update_priv cfg now dir speed when s =
     (case update_window cfg now (mk_msg dir speed when) s of
        None \<Rightarrow> (Returned, s)
      | Some (Inl (e, s1)) \<Rightarrow> (Threw e, s1)
      | Some (Inr s2) \<Rightarrow>
          if maxfreq s2 > 1 then (Threw MaxFreqError, s2) else (Returned, s2))"

text \<open>Lines 234-238. The argument is \<open>None\<close> when \<open>when\<close> is absent (\<open>undefined\<close>).
  \<open>!when\<close> holds for \<open>undefined\<close>, \<open>NaN\<close> and 0.\<close>
datatype when_rule = UseNow | Seconds | Millis

definition when_rule_of :: "jsnum option \<Rightarrow> when_rule" where
  "when_rule_of w =
     (case w of
        None \<Rightarrow> UseNow
      | Some NaN \<Rightarrow> UseNow
      | Some (Num x) \<Rightarrow> if x = 0 then UseNow else if x < 1000000000000 then Seconds else Millis)"

definition resolve_when :: "real \<Rightarrow> jsnum option \<Rightarrow> real" where
  "resolve_when now w =
     (case w of
        None \<Rightarrow> now
      | Some NaN \<Rightarrow> now
      | Some (Num x) \<Rightarrow> if x = 0 then now else if x < 1000000000000 then x * 1000 else x)"

text \<open>The public \<open>update(dir, speed, when)\<close>, lines 225-245. \<open>now\<close> is \<open>Date.now()\<close> of
  line 235 and \<open>now'\<close> the one of line 248. The object form \<open>update({dir, speed, when})\<close>
  unpacks to the same three arguments.\<close>
definition update :: "config \<Rightarrow> real \<Rightarrow> real \<Rightarrow> real \<Rightarrow> jsnum \<Rightarrow> jsnum option \<Rightarrow> wstate \<Rightarrow> outcome \<times> wstate" where
  "update cfg now now' dir speed w s =
     (if preloading s then (Returned, s)
      else update_priv cfg now' dir speed (resolve_when now w) s)"

section \<open>The history codec\<close>

text \<open>\<open>a + b\<close> and \<open>a - b\<close>; \<open>undefined\<close> in arithmetic is \<open>NaN\<close>.\<close>
fun js_add :: "jsnum \<Rightarrow> jsnum \<Rightarrow> jsnum" where
  "js_add (Num a) (Num b) = Num (a + b)"
| "js_add _ _ = NaN"

fun js_sub :: "jsnum \<Rightarrow> jsnum \<Rightarrow> jsnum" where
  "js_sub (Num a) (Num b) = Num (a - b)"
| "js_sub _ _ = NaN"

text \<open>\<open>x / 2\<close>\<close>
fun js_half :: "jsnum \<Rightarrow> jsnum" where
  "js_half (Num a) = Num (a / 2)"
| "js_half NaN = NaN"

text \<open>An element of \<open>records\<close> in the delta format: a number, an object \<open>{when: d}\<close>, or
  \<open>null\<close> (which is what a \<open>NaN\<close> becomes in JSON).\<close>
datatype drec = DNum jsnum | DWhen jsnum | DNull

text \<open>An entry \<open>{dir, speed, when}\<close> of the server's \<open>history\<close>.\<close>
record reading =
  r_dir :: real
  r_speed :: jsnum
  r_when :: real

text \<open>A history request; \<open>req_when\<close> is \<open>None\<close> when \<open>req.when\<close> is absent.\<close>
record request =
  req_numarcs :: nat
  req_bands :: "real list"
  req_when :: "real option"

text \<open>The loop variables of \<open>publishHistory\<close>: \<open>start\<close> and \<open>guesswhen\<close> (both
  undefined until the first assignment, which sets both), \<open>last\<close>, \<open>msg.when\<close> and
  \<open>records\<close>.\<close>
record enc_state =
  e_clock :: "(real \<times> real) option"
  e_last :: jsnum
  e_when :: "real option"
  e_records :: "drec list"

text \<open>Lines 265-270. \<open>req.numarccs\<close> is not a field of the request: both corrections
  add \<open>undefined\<close> and give \<open>NaN\<close>. The upper test is \<open>arc > req.numarcs\<close>.\<close>
definition enc_arc :: "nat \<Rightarrow> real \<Rightarrow> jsnum" where
  "enc_arc numarcs dir =
     (let a = round (dir / (360 / real numarcs))
      in if a < 0 then NaN
         else if a > int numarcs then NaN
         else Num (of_int a))"

text \<open>Lines 261-275.\<close>
definition enc_target :: "request \<Rightarrow> reading \<Rightarrow> jsnum" where
  "enc_target req r =
     (if js_eq (r_speed r) (Num 0) then Num (- 1)
      else js_add (Num (real (enc_band (req_bands req) (r_speed r)) * real (req_numarcs req)))
             (enc_arc (req_numarcs req) (r_dir r)))"

text \<open>Lines 250-253: \<open>!start && (!req.when || when > req.when)\<close>.\<close>
definition enc_sync :: "request \<Rightarrow> real \<Rightarrow> enc_state \<Rightarrow> enc_state" where
  "enc_sync req when st =
     (if (case e_clock st of None \<Rightarrow> True | Some (start, _) \<Rightarrow> start = 0)
         \<and> (case req_when req of None \<Rightarrow> True | Some w \<Rightarrow> w = 0 \<or> when > w)
      then st\<lparr>e_clock := Some (when, when), e_when := Some when\<rparr>
      else st)"

text \<open>Lines 254-260 with \<open>step = 1000\<close>. While \<open>start\<close> is undefined both quotients are
  \<open>NaN\<close>, which differ, and the adjustment pushed is \<open>NaN\<close>.\<close>
definition enc_adjust :: "real \<Rightarrow> enc_state \<Rightarrow> enc_state" where
  "enc_adjust when st =
     (case e_clock st of
        None \<Rightarrow> st\<lparr>e_records := e_records st @ [DWhen NaN], e_clock := Some (when, when)\<rparr>
      | Some (start, guess) \<Rightarrow>
          if round ((when - start) / 1000) \<noteq> round ((guess - start) / 1000)
          then st\<lparr>e_records := e_records st @ [DWhen (Num (when - guess))],
                  e_clock := Some (when, when)\<rparr>
          else st)"

text \<open>Lines 276-278.\<close>
definition enc_emit :: "request \<Rightarrow> reading \<Rightarrow> enc_state \<Rightarrow> enc_state" where
  "enc_emit req r st =
     (let target = enc_target req r
      in st\<lparr>e_records := e_records st @ [DNum (js_sub target (e_last st))],
            e_last := target,
            e_clock := map_option (\<lambda>(start, guess). (start, guess + 1000)) (e_clock st)\<rparr>)"

text \<open>The delta branch of \<open>publishHistory\<close>, lines 239-287, taken for a request with
  \<open>format == "delta"\<close>, \<open>numarcs > 0\<close> and a non-empty \<open>bands\<close>.\<close>
definition publishHistory :: "request \<Rightarrow> reading list \<Rightarrow> enc_state" where
  "publishHistory req history =
     foldl (\<lambda>st r. enc_emit req r (enc_adjust (r_when r) (enc_sync req (r_when r) st)))
       \<lparr>e_clock = None, e_last = Num 0, e_when = None, e_records = []\<rparr> history"

text \<open>A delta payload as \<open>preload\<close> reads it, with \<open>when\<close> and \<open>step\<close> present.\<close>
record payload =
  d_when :: real
  d_step :: real
  d_records :: "drec list"

text \<open>\<open>this.bands[i]\<close> in arithmetic: \<open>undefined\<close>, hence \<open>NaN\<close>, out of range.\<close>
definition band_at :: "real list \<Rightarrow> int \<Rightarrow> jsnum" where
  "band_at bs i = (if 0 \<le> i \<and> nat i < length bs then Num (bs ! nat i) else NaN)"

text \<open>Lines 160-166: the direction and speed rebuilt from \<open>target\<close>.\<close>
definition decode_target :: "config \<Rightarrow> nat \<Rightarrow> jsnum \<Rightarrow> real \<times> jsnum" where
  "decode_target cfg numarcs target =
     (case target of
        NaN \<Rightarrow> (0, Num 0)
      | Num t \<Rightarrow>
          if t \<ge> 0 then
            (let band = \<lfloor>t / real numarcs\<rfloor>;
                 a = t - of_int band * real numarcs
             in ((a + 1 / 2) * arc cfg,
                 js_half (js_add (band_at (bands cfg) band)
                            (if band = 0 then Num 0 else band_at (bands cfg) (band - 1)))))
          else (0, Num 0))"

text \<open>Lines 156-175, the loop over \<open>records\<close> with its variables \<open>target\<close>, \<open>when\<close> and
  \<open>lastwhen\<close>; the result is the array \<open>a\<close> as a list of triples (direction, speed,
  milliseconds since the previous record). Reading \<open>v.when\<close> of \<open>null\<close> throws.\<close>
fun decode_loop :: "config \<Rightarrow> nat \<Rightarrow> real \<Rightarrow> drec list \<Rightarrow> jsnum \<Rightarrow> real \<Rightarrow> real
    \<Rightarrow> error + (real \<times> jsnum \<times> real) list" where
  "decode_loop cfg numarcs step [] target when lastwhen = Inr []"
| "decode_loop cfg numarcs step (DNum v # rs) target when lastwhen =
     (let target' = js_add target v;
          (dir, speed) = decode_target cfg numarcs target'
      in case decode_loop cfg numarcs step rs target' (when + step) when of
           Inl e \<Rightarrow> Inl e
         | Inr a \<Rightarrow> Inr ((dir, speed, when - lastwhen) # a))"
| "decode_loop cfg numarcs step (DWhen w # rs) target when lastwhen =
     (case w of
        NaN \<Rightarrow> decode_loop cfg numarcs step rs target when lastwhen
      | Num d \<Rightarrow> decode_loop cfg numarcs step rs target (if d = 0 then when else when + d) lastwhen)"
| "decode_loop cfg numarcs step (DNull # rs) target when lastwhen = Inl TypeError"

definition decode_delta :: "config \<Rightarrow> nat \<Rightarrow> payload \<Rightarrow> error + (real \<times> jsnum \<times> real) list" where
  "decode_delta cfg numarcs p =
     decode_loop cfg numarcs (d_step p) (d_records p) (Num 0) (d_when p) (d_when p)"

text \<open>The argument of \<open>preload\<close>: a delta payload, or the simple format with its \<open>when\<close>
  and its records as triples.\<close>
datatype data = Delta payload | Simple real "(real \<times> jsnum \<times> real) list"

text \<open>A pending \<open>setTimeout\<close> callback \<open>f(when, off)\<close> over the array \<open>a\<close>; \<open>t_off\<close>
  counts triples.\<close>
record task =
  t_when :: real
  t_off :: nat
  t_a :: "(real \<times> jsnum \<times> real) list"

text \<open>\<open>preload(data)\<close>, lines 143-217: the flag is set, the payload is decoded, the first
  batch is scheduled. A throw while decoding clears the flag and is passed on.\<close>
definition preload :: "config \<Rightarrow> data \<Rightarrow> wstate \<Rightarrow> outcome \<times> wstate \<times> task option" where
  "preload cfg dat s =
     (case dat of
        Delta p \<Rightarrow>
          (case decode_delta cfg (length (rose s)) p of
             Inl e \<Rightarrow> (Threw e, s\<lparr>preloading := False\<rparr>, None)
           | Inr a \<Rightarrow>
               (Returned, s\<lparr>preloading := True\<rparr>, Some \<lparr>t_when = d_when p, t_off = 0, t_a = a\<rparr>))
      | Simple w a \<Rightarrow>
          (Returned, s\<lparr>preloading := True\<rparr>, Some \<lparr>t_when = w, t_off = 0, t_a = a\<rparr>))"

text \<open>Lines 185-189, the \<open>while (off < end)\<close> loop of a batch over its triples: every
  triple is handed to \<open>#update\<close>; \<open>now k\<close> is \<open>Date.now()\<close> at triple number \<open>k\<close>. A throw
  of \<open>#update\<close> leaves the loop.\<close>
fun feed :: "config \<Rightarrow> (nat \<Rightarrow> real) \<Rightarrow> nat \<Rightarrow> real \<Rightarrow> (real \<times> jsnum \<times> real) list \<Rightarrow> wstate
    \<Rightarrow> outcome \<times> wstate \<times> real" where
  "feed cfg now k when [] s = (Returned, s, when)"
| "feed cfg now k when ((dir, speed, dt) # ts) s =
     (case update_priv cfg (now k) dir speed (when + dt) s of
        (Threw e, s') \<Rightarrow> (Threw e, s', when + dt)
      | (Returned, s') \<Rightarrow> feed cfg now (Suc k) (when + dt) ts s')"

text \<open>One run of the callback \<open>f\<close>, lines 182-211: at most 500 triples, then either the
  flag is cleared or the next batch is scheduled. A throw escapes the callback: nothing
  clears the flag and nothing is scheduled.\<close>
definition run_batch :: "config \<Rightarrow> (nat \<Rightarrow> real) \<Rightarrow> task \<Rightarrow> wstate \<Rightarrow> outcome \<times> wstate \<times> task option" where
  "run_batch cfg now t s =
     (let a = t_a t;
          end = min (length a) (t_off t + 500)
      in case feed cfg now (t_off t) (t_when t) (take (end - t_off t) (drop (t_off t) a)) s of
           (Threw e, s', w) \<Rightarrow> (Threw e, s', None)
         | (Returned, s', w) \<Rightarrow>
             if end = length a then (Returned, s'\<lparr>preloading := False\<rparr>, None)
             else (Returned, s', Some \<lparr>t_when = w, t_off = end, t_a = a\<rparr>))"

text \<open>The buckets the readings of a history are counted in when they are inserted
  directly, and when they are encoded, decoded and then inserted.\<close>
definition direct_buckets :: "config \<Rightarrow> nat \<Rightarrow> reading list \<Rightarrow> bucket list" where
  "direct_buckets cfg numarcs history =
     map (\<lambda>r. bucket_of cfg numarcs (mk_msg (r_dir r) (r_speed r) (r_when r))) history"

definition decoded_buckets :: "config \<Rightarrow> nat \<Rightarrow> (real \<times> jsnum \<times> real) list \<Rightarrow> bucket list" where
  "decoded_buckets cfg numarcs a =
     map (\<lambda>(dir, speed, dt). bucket_of cfg numarcs (mk_msg dir speed 0)) a"

section \<open>Sequences of calls, reachable states and the counting invariant\<close>

text \<open>A sequence of \<open>#update\<close> calls, each with its own clock reading: (\<open>Date.now()\<close>,
  direction, speed, timestamp). A call that throws does not end the sequence (the page
  lives on); the outcomes are collected.\<close>
fun update_seq :: "config \<Rightarrow> (real \<times> real \<times> jsnum \<times> real) list \<Rightarrow> wstate \<Rightarrow> outcome list \<times> wstate" where
  "update_seq cfg [] s = ([], s)"
| "update_seq cfg ((now, dir, speed, when) # cs) s =
     (case update_priv cfg now dir speed when s of
        (out, s') \<Rightarrow> (case update_seq cfg cs s' of (outs, s'') \<Rightarrow> (out # outs, s'')))"


text \<open>The sum of \<open>count\<close> over all buckets: the sentinel and every cell of the rose.\<close>
definition total_count :: "wstate \<Rightarrow> int" where
  "total_count s = rose0 s + sum_list (map sum_list (rose s))"

text \<open>The \<open>count\<close> of a bucket, 0 for a cell the rose does not (yet) have.\<close>
definition cnt :: "wstate \<Rightarrow> bucket \<Rightarrow> int" where
  "cnt s b =
     (case b of
        Sentinel \<Rightarrow> rose0 s
      | Cell a band \<Rightarrow>
          if 0 \<le> a \<and> nat a < length (rose s) \<and> band < length (rose s ! nat a)
          then rose s ! nat a ! band else 0)"

text \<open>The number of readings of a queue that are classified into a bucket.\<close>
definition tally :: "config \<Rightarrow> nat \<Rightarrow> msg list \<Rightarrow> bucket \<Rightarrow> int" where
  "tally cfg numarcs xs b = int (length (filter (\<lambda>m. bucket_of cfg numarcs m = b) xs))"


text \<open>Every bucket counts the queued readings that are classified into it.\<close>
definition counted :: "config \<Rightarrow> wstate \<Rightarrow> bool" where
  "counted cfg s \<longleftrightarrow> (\<forall>b. cnt s b = tally cfg (length (rose s)) (q s) b)"

text \<open>The reading a call queues, and its timestamp.\<close>
fun call_msg :: "real \<times> real \<times> jsnum \<times> real \<Rightarrow> msg" where
  "call_msg (now, dir, speed, when) = mk_msg dir speed when"

fun call_when :: "real \<times> real \<times> jsnum \<times> real \<Rightarrow> real" where
  "call_when (now, dir, speed, when) = when"


section \<open>Band classification\<close>

lemma ins_band_first_greater: "ins_band bs (Num s) = first_greater bs s"
  by (induction bs) (simp_all add: first_greater_def)

lemma del_band_first_greater: "del_band bs (Num s) = first_greater bs s"
  by (induction bs) (simp_all add: first_greater_def)

lemma enc_band_first_greater: "enc_band bs (Num s) = first_greater bs s"
  by (induction bs) (auto simp add: first_greater_def)

lemma del_band_eq_ins_band: "del_band bs v = ins_band bs v"
  by (induction bs) (cases v; simp)+

lemma first_greater_le: "first_greater bs s \<le> length bs"
  by (simp add: first_greater_def length_takeWhile_le)

lemma first_greater_below: "j < first_greater bs s \<Longrightarrow> bs ! j \<le> s"
  unfolding first_greater_def
  using nth_mem [of j "takeWhile (\<lambda>b. \<not> s < b) bs"] takeWhile_nth [of j "\<lambda>b. \<not> s < b" bs]
  by (auto dest!: set_takeWhileD)

lemma first_greater_at: "first_greater bs s < length bs \<Longrightarrow> s < bs ! first_greater bs s"
  unfolding first_greater_def
  using nth_length_takeWhile [of "\<lambda>b. \<not> s < b" bs] by auto

lemma first_greater_boundary:
  assumes "sorted_wrt (<) bs" "k < length bs"
  shows "first_greater bs (bs ! k) = Suc k"
proof -
  let ?g = "first_greater bs (bs ! k)"
  have le: "?g \<le> length bs" by (rule first_greater_le)
  have "\<not> ?g \<le> k"
  proof
    assume h: "?g \<le> k"
    then have lt: "?g < length bs" using assms(2) by simp
    from first_greater_at [OF lt] have "bs ! k < bs ! ?g" .
    moreover have "bs ! ?g \<le> bs ! k"
    proof (cases "?g = k")
      case True then show ?thesis by simp
    next
      case False
      with h have "?g < k" by simp
      with assms show ?thesis by (simp add: sorted_wrt_nth_less less_imp_le)
    qed
    ultimately show False by simp
  qed
  moreover have "\<not> Suc k < ?g"
  proof
    assume h: "Suc k < ?g"
    from first_greater_below [OF h] have "bs ! Suc k \<le> bs ! k" .
    moreover from h le have "Suc k < length bs" by simp
    with assms have "bs ! k < bs ! Suc k" by (simp add: sorted_wrt_nth_less)
    ultimately show False by simp
  qed
  ultimately show ?thesis by simp
qed

text \<open>
  Claim C4. A non-zero speed is counted in the band whose index is that of the first
  boundary strictly greater than the speed (the number of boundaries when there is none),
  in \<open>#update\<close> and in the encoder alike; a speed equal to a boundary of strictly
  increasing bands lands in the band above that boundary.
\<close>
theorem band_is_first_boundary_above:
  assumes "s \<noteq> 0"
  shows "bucket_of cfg n \<lparr>m_dir = d, m_speed = Num s, m_when = w\<rparr>
           = Cell (arc_index (arc cfg) n d) (first_greater (bands cfg) s)
       \<and> (0 < s \<longrightarrow> (\<exists>a. bucket_of cfg n (mk_msg d (Num s) w) = Cell a (first_greater (bands cfg) s)))
       \<and> enc_target req \<lparr>r_dir = d, r_speed = Num s, r_when = w\<rparr>
           = js_add (Num (real (first_greater (req_bands req) s) * real (req_numarcs req)))
               (enc_arc (req_numarcs req) d)
       \<and> first_greater bs s \<le> length bs
       \<and> (\<forall>j < first_greater bs s. bs ! j \<le> s)
       \<and> (first_greater bs s < length bs \<longrightarrow> s < bs ! first_greater bs s)
       \<and> (sorted_wrt (<) bs \<and> k < length bs \<and> s = bs ! k \<longrightarrow> first_greater bs s = Suc k)"
proof -
  have a: "bucket_of cfg n \<lparr>m_dir = d, m_speed = Num s, m_when = w\<rparr>
           = Cell (arc_index (arc cfg) n d) (first_greater (bands cfg) s)"
    using assms by (simp add: bucket_of_def ins_band_first_greater)
  have b: "0 < s \<longrightarrow> (\<exists>a. bucket_of cfg n (mk_msg d (Num s) w) = Cell a (first_greater (bands cfg) s))"
    by (auto simp add: bucket_of_def mk_msg_def ins_band_first_greater max_def Let_def)
  have c: "enc_target req \<lparr>r_dir = d, r_speed = Num s, r_when = w\<rparr>
           = js_add (Num (real (first_greater (req_bands req) s) * real (req_numarcs req)))
               (enc_arc (req_numarcs req) d)"
    using assms by (simp add: enc_target_def enc_band_first_greater)
  show ?thesis
    using a b c first_greater_le [of bs s] first_greater_below [of _ bs s]
      first_greater_at [of bs s] first_greater_boundary [of bs k]
    by blast
qed

theorem band_is_first_boundary_above_witness:
  "(5::real) \<noteq> 0
   \<and> bucket_of \<lparr>max_data_count = 0, max_data_age = 0, arc = 20, bands = [5, 10, 200]\<rparr> 18
        \<lparr>m_dir = 45, m_speed = Num 5, m_when = 0\<rparr> = Cell 2 1
   \<and> enc_target \<lparr>req_numarcs = 18, req_bands = [5, 10, 200], req_when = None\<rparr>
        \<lparr>r_dir = 45, r_speed = Num 5, r_when = 0\<rparr> = Num 20
   \<and> first_greater [5, 10, 200] 5 = Suc 0"
proof -
  have h: "(5::real) \<noteq> 0" by simp
  have arc: "arc_index 20 18 45 = 2"
    by (simp add: arc_index_def round_def Let_def)
  have fg: "first_greater [5, 10, 200] 5 = Suc 0"
    by (simp add: first_greater_def)
  have ea: "enc_arc 18 45 = Num 2"
    by (simp add: enc_arc_def round_def Let_def)
  show ?thesis
    using band_is_first_boundary_above [OF h,
        of "\<lparr>max_data_count = 0, max_data_age = 0, arc = 20, bands = [5, 10, 200]\<rparr>" 18 45 0
           "\<lparr>req_numarcs = 18, req_bands = [5, 10, 200], req_when = None\<rparr>" "[5, 10, 200]" 0]
    by (simp add: arc fg ea)
qed


section \<open>Negative speeds\<close>

lemma mk_msg_negative: "s < 0 \<Longrightarrow> mk_msg d (Num s) w = \<lparr>m_dir = 0, m_speed = Num 0, m_when = w\<rparr>"
  by (simp add: mk_msg_def norm_dir_def Let_def max_def)

lemma set_q_scan: "q_scan m xs i = Some ys \<Longrightarrow> m \<in> set ys"
  by (induction i) (auto split: if_splits)

lemma set_q_insert: "q_insert m xs = Some ys \<Longrightarrow> m \<in> set ys"
  by (auto simp: q_insert_def set_q_scan split: if_splits)

text \<open>
  Claim C9. A negative speed is clamped to 0 and its direction set to 0, whatever the
  direction given: the reading queued is \<open>(0, 0, when)\<close>, the call behaves as the call
  with direction 0 and speed 0, and the reading is counted in the zero-speed bucket.
\<close>
theorem negative_speed_counts_as_calm:
  assumes "s < 0"
  shows "mk_msg d (Num s) w = \<lparr>m_dir = 0, m_speed = Num 0, m_when = w\<rparr>
       \<and> update_priv cfg now d (Num s) w st = update_priv cfg now 0 (Num 0) w st
       \<and> (\<forall>xs. q_insert (mk_msg d (Num s) w) (q st) = Some xs
              \<longrightarrow> \<lparr>m_dir = 0, m_speed = Num 0, m_when = w\<rparr> \<in> set xs)
       \<and> bucket_of cfg (length (rose st)) (mk_msg d (Num s) w) = Sentinel
       \<and> count_new cfg (mk_msg d (Num s) w) st = Inr (st\<lparr>rose0 := rose0 st + 1\<rparr>)"
proof -
  have m: "mk_msg d (Num s) w = \<lparr>m_dir = 0, m_speed = Num 0, m_when = w\<rparr>"
    using assms by (rule mk_msg_negative)
  have z: "mk_msg 0 (Num 0) w = \<lparr>m_dir = 0, m_speed = Num 0, m_when = w\<rparr>"
    by (simp add: mk_msg_def norm_dir_def Let_def)
  have u: "update_priv cfg now d (Num s) w st = update_priv cfg now 0 (Num 0) w st"
    by (simp add: update_priv_def m z)
  have b: "bucket_of cfg (length (rose st)) (mk_msg d (Num s) w) = Sentinel"
    by (simp add: m bucket_of_def)
  have c: "count_new cfg (mk_msg d (Num s) w) st = Inr (st\<lparr>rose0 := rose0 st + 1\<rparr>)"
    by (simp add: count_new_def b)
  show ?thesis
    using m u b c set_q_insert [of "mk_msg d (Num s) w" "q st"] by simp
qed

theorem negative_speed_counts_as_calm_witness:
  "(- 3 :: real) < 0
   \<and> update_priv (new_config 0 0 20 [5, 10, 200]) 1000 90 (Num (- 3)) 1000 (new_state 20)
       = (Returned, (new_state 20)\<lparr>q := [\<lparr>m_dir = 0, m_speed = Num 0, m_when = 1000\<rparr>], rose0 := 1\<rparr>)"
proof -
  have h: "(- 3 :: real) < 0" by simp
  have "update_priv (new_config 0 0 20 [5, 10, 200]) 1000 0 (Num 0) 1000 (new_state 20)
       = (Returned, (new_state 20)\<lparr>q := [\<lparr>m_dir = 0, m_speed = Num 0, m_when = 1000\<rparr>], rose0 := 1\<rparr>)"
    by (simp add: update_priv_def update_window_def mk_msg_def norm_dir_def q_insert_def
        new_config_def new_state_def evict_cond_def count_new_def bucket_of_def maxfreq_def
        arc_freq_def new_numarcs_def eval_nat_numeral)
  then show ?thesis
    using negative_speed_counts_as_calm [OF h, of 90 1000 "new_config 0 0 20 [5, 10, 200]" 1000 "new_state 20"]
    by simp
qed

section \<open>Timestamps of the public update\<close>

text \<open>
  Claim C10 as stated fails: a negative timestamp is also below \<open>10^12\<close> and is scaled
  by 1000, so not only strictly positive timestamps are read as seconds.
\<close>
theorem only_positive_small_timestamps_scaled_counterexample:
  "when_rule_of (Some (Num (- 5))) = Seconds
   \<and> resolve_when 1700000000000 (Some (Num (- 5))) = - 5000"
  by (simp add: when_rule_of_def resolve_when_def)

text \<open>
  Claim C10, amended. An absent, \<open>NaN\<close> or zero timestamp is replaced by the clock
  reading of the call; every other timestamp below \<open>10^12\<close>, negative ones included, is
  read as seconds and scaled by 1000; a timestamp from \<open>10^12\<close> on is kept.
\<close>
theorem falsy_timestamp_is_now:
  "resolve_when now None = now
   \<and> resolve_when now (Some NaN) = now
   \<and> resolve_when now (Some (Num 0)) = now
   \<and> (when_rule_of w = UseNow \<longleftrightarrow> w = None \<or> w = Some NaN \<or> w = Some (Num 0))
   \<and> (when_rule_of w = UseNow \<longrightarrow> resolve_when now w = now)
   \<and> (when_rule_of w = Seconds \<longleftrightarrow> (\<exists>x. w = Some (Num x) \<and> x \<noteq> 0 \<and> x < 1000000000000))
   \<and> (x \<noteq> 0 \<and> x < 1000000000000 \<longrightarrow> resolve_when now (Some (Num x)) = x * 1000)
   \<and> (1000000000000 \<le> x \<longrightarrow> resolve_when now (Some (Num x)) = x)
   \<and> (\<not> preloading s \<longrightarrow>
        update cfg now now' d sp w s = update_priv cfg now' d sp (resolve_when now w) s)"
  by (auto simp add: resolve_when_def when_rule_of_def update_def split: option.splits jsnum.splits if_splits)

theorem falsy_timestamp_is_now_witness:
  "when_rule_of (Some (Num 0)) = UseNow
   \<and> resolve_when 1700000000000 (Some (Num 0)) = 1700000000000
   \<and> resolve_when 1700000000000 (Some (Num 1700000000)) = 1700000000000
   \<and> resolve_when 1700000000000 (Some (Num (- 5))) = - 5000
   \<and> resolve_when 5 (Some (Num 1700000000000)) = 1700000000000"
  using falsy_timestamp_is_now [of 1700000000000 "Some (Num 0)" 1700000000 undefined undefined undefined undefined undefined]
    falsy_timestamp_is_now [of 1700000000000 None "- 5" undefined undefined undefined undefined undefined]
    falsy_timestamp_is_now [of 5 None 1700000000000 undefined undefined undefined undefined undefined]
  by simp

section \<open>What the phases of an update leave alone\<close>

lemma bump_existing_frame:
  "bump_existing b d s = Inr s' \<Longrightarrow>
     q s' = q s \<and> preloading s' = preloading s \<and> length (rose s') = length (rose s)"
  by (auto simp: bump_existing_def split: bucket.splits if_splits)

lemma count_new_frame:
  "count_new cfg m s = Inr s' \<Longrightarrow>
     q s' = q s \<and> preloading s' = preloading s \<and> length (rose s') = length (rose s)"
  by (auto simp: count_new_def Let_def split: bucket.splits if_splits)


lemma evict_throws_TypeError: "evict cfg now xs s = (Threw e, s') \<Longrightarrow> e = TypeError"
proof (induction xs arbitrary: s)
  case Nil
  then show ?case by (auto simp: evict_cond_def split: sum.splits if_splits)
next
  case (Cons d rest)
  then show ?case
    by (auto simp: evict_cond_def bump_existing_def split: sum.splits if_splits bucket.splits list.splits)
qed

lemma evict_returned_nonempty:
  "xs \<noteq> [] \<Longrightarrow> evict cfg now xs s = (Returned, s') \<Longrightarrow> q s' \<noteq> []"
proof (induction xs arbitrary: s)
  case Nil
  then show ?case by simp
next
  case (Cons d rest)
  show ?case
  proof (cases rest)
    case Nil
    with Cons.prems show ?thesis
      by (auto simp: evict_cond_def split: sum.splits if_splits)
  next
    case (Cons d' rest')
    with Cons.prems Cons.IH show ?thesis
      by (auto split: sum.splits if_splits)
  qed
qed







section \<open>The frequency check\<close>

lemma Max_insert_insert:
  "finite S \<Longrightarrow> Max (insert (max a b) S) = max (a::real) (Max (insert b S))"
  by (cases "S = {}") (simp_all add: max.assoc)

lemma foldl_running_max:
  "foldl (\<lambda>mx x. if f x > mx then f x else mx) (m::real) xs = Max (insert m (f ` set xs))"
proof (induction xs arbitrary: m)
  case Nil
  then show ?case by simp
next
  case (Cons x xs)
  have "(if f x > m then f x else m) = max m (f x)" by (simp add: max_def)
  then show ?case
    using Cons.IH [of "max m (f x)"] by (simp add: Max_insert_insert)
qed

lemma maxfreq_is_max_arc_frequency: "maxfreq s = max_arc_frequency s"
  by (simp add: maxfreq_def max_arc_frequency_def Let_def foldl_running_max)


lemma count_new_throws_TypeError: "count_new cfg m s = Inl e \<Longrightarrow> e = TypeError"
  by (auto simp: count_new_def Let_def split: bucket.splits if_splits)

lemma update_window_nonempty:
  assumes "update_window cfg now m s = Some (Inr s2)"
  shows "q s2 \<noteq> []"
proof -
  from assms obtain xs s1 where
    ins: "q_insert m (q s) = Some xs" and ev: "evict cfg now xs s = (Returned, s1)"
    and cn: "count_new cfg m s1 = Inr s2"
    by (auto simp: update_window_def split: option.splits prod.splits outcome.splits sum.splits)
  from set_q_insert [OF ins] have "xs \<noteq> []" by auto
  from evict_returned_nonempty [OF this ev] count_new_frame [OF cn] show ?thesis by simp
qed

lemma update_window_throws_TypeError:
  "update_window cfg now m s = Some (Inl (e, s1)) \<Longrightarrow> e = TypeError"
  by (auto simp: update_window_def split: option.splits prod.splits outcome.splits sum.splits
      dest: evict_throws_TypeError count_new_throws_TypeError)

text \<open>
  Claim C6. When a call has queued, trimmed and counted its reading, the queue is not
  empty, and the call throws exactly when the maximum over the sentinel and the arcs of
  count divided by queue length exceeds 1; \<open>#update\<close> throws this error in no other case,
  and a call that returns has either stopped at a duplicate or found the maximum at most 1.
\<close>
theorem maxfreq_above_one_throws:
  "(update_window cfg now (mk_msg d sp w) s = Some (Inr s2) \<longrightarrow>
      q s2 \<noteq> []
      \<and> update_priv cfg now d sp w s =
          (if max_arc_frequency s2 > 1 then (Threw MaxFreqError, s2) else (Returned, s2)))
   \<and> (update_priv cfg now d sp w s = (Threw MaxFreqError, s') \<longrightarrow>
        update_window cfg now (mk_msg d sp w) s = Some (Inr s') \<and> max_arc_frequency s' > 1)
   \<and> (update_priv cfg now d sp w s = (Returned, s') \<longrightarrow>
        (update_window cfg now (mk_msg d sp w) s = None \<and> s' = s)
        \<or> (update_window cfg now (mk_msg d sp w) s = Some (Inr s') \<and> max_arc_frequency s' \<le> 1))"
proof -
  have a: "update_window cfg now (mk_msg d sp w) s = Some (Inr s2) \<longrightarrow>
      q s2 \<noteq> []
      \<and> update_priv cfg now d sp w s =
          (if max_arc_frequency s2 > 1 then (Threw MaxFreqError, s2) else (Returned, s2))"
    by (auto simp: update_priv_def maxfreq_is_max_arc_frequency dest: update_window_nonempty)
  have b: "update_priv cfg now d sp w s = (Threw MaxFreqError, s') \<longrightarrow>
        update_window cfg now (mk_msg d sp w) s = Some (Inr s') \<and> max_arc_frequency s' > 1"
    by (auto simp: update_priv_def maxfreq_is_max_arc_frequency
        split: option.splits sum.splits if_splits dest: update_window_throws_TypeError)
  have c: "update_priv cfg now d sp w s = (Returned, s') \<longrightarrow>
        (update_window cfg now (mk_msg d sp w) s = None \<and> s' = s)
        \<or> (update_window cfg now (mk_msg d sp w) s = Some (Inr s') \<and> max_arc_frequency s' \<le> 1)"
    by (auto simp: update_priv_def maxfreq_is_max_arc_frequency
        split: option.splits sum.splits if_splits)
  from a b c show ?thesis by blast
qed

theorem maxfreq_above_one_throws_witness:
  "update_priv (new_config 0 0 360 [200]) 9 0 (Num 3) 10 \<lparr>q = [], rose = [[5]], rose0 = 0, preloading = False\<rparr>
     = (Threw MaxFreqError,
        \<lparr>q = [\<lparr>m_dir = 0, m_speed = Num 3, m_when = 10\<rparr>], rose = [[6]], rose0 = 0, preloading = False\<rparr>)
   \<and> max_arc_frequency
        \<lparr>q = [\<lparr>m_dir = 0, m_speed = Num 3, m_when = 10\<rparr>], rose = [[6]], rose0 = 0, preloading = False\<rparr> = 6
   \<and> update_priv (new_config 0 0 360 [200]) 9 0 (Num 3) 10 \<lparr>q = [], rose = [[]], rose0 = 0, preloading = False\<rparr>
     = (Returned,
        \<lparr>q = [\<lparr>m_dir = 0, m_speed = Num 3, m_when = 10\<rparr>], rose = [[1]], rose0 = 0, preloading = False\<rparr>)
   \<and> max_arc_frequency
        \<lparr>q = [\<lparr>m_dir = 0, m_speed = Num 3, m_when = 10\<rparr>], rose = [[1]], rose0 = 0, preloading = False\<rparr> = 1"
proof -
  let ?cfg = "new_config 0 0 360 [200]"
  let ?m = "\<lparr>m_dir = 0, m_speed = Num 3, m_when = 10\<rparr>"
  let ?bad = "\<lparr>q = [], rose = [[5]], rose0 = 0, preloading = False\<rparr>"
  let ?bad' = "\<lparr>q = [?m], rose = [[6]], rose0 = 0, preloading = False\<rparr>"
  let ?ok = "\<lparr>q = [], rose = [[]], rose0 = 0, preloading = False\<rparr>"
  let ?ok' = "\<lparr>q = [?m], rose = [[1]], rose0 = 0, preloading = False\<rparr>"
  have w1: "update_window ?cfg 9 (mk_msg 0 (Num 3) 10) ?bad = Some (Inr ?bad')"
    by code_simp
  have w2: "update_window ?cfg 9 (mk_msg 0 (Num 3) 10) ?ok = Some (Inr ?ok')"
    by code_simp
  have f1: "max_arc_frequency ?bad' = 6" by code_simp
  have f2: "max_arc_frequency ?ok' = 1" by code_simp
  have u1: "update_priv ?cfg 9 0 (Num 3) 10 ?bad = (Threw MaxFreqError, ?bad')"
    using maxfreq_above_one_throws [of ?cfg 9 0 "Num 3" 10 ?bad ?bad' ?bad'] w1 f1
    by (simp del: One_nat_def)
  have u2: "update_priv ?cfg 9 0 (Num 3) 10 ?ok = (Returned, ?ok')"
    using maxfreq_above_one_throws [of ?cfg 9 0 "Num 3" 10 ?ok ?ok' ?ok'] w2 f2
    by (simp del: One_nat_def)
  from u1 f1 u2 f2 show ?thesis by blast
qed

section \<open>Directions\<close>

lemma js_rem_nonneg:
  assumes "0 \<le> x"
  shows "0 \<le> js_rem x 360 \<and> js_rem x 360 < 360"
proof -
  define y where "y = x / 360"
  have "0 \<le> y" using assms by (simp add: y_def)
  then have e: "js_rem x 360 = 360 * y - 360 * of_int \<lfloor>y\<rfloor>" by (simp add: js_rem_def y_def)
  have "of_int \<lfloor>y\<rfloor> \<le> y" "y < of_int \<lfloor>y\<rfloor> + 1"
    by linarith+
  then show ?thesis unfolding e by linarith
qed

lemma js_rem_neg:
  assumes "x < 0"
  shows "- 360 < js_rem x 360 \<and> js_rem x 360 \<le> 0"
proof -
  define y where "y = x / 360"
  have "\<not> 0 \<le> y" using assms by (simp add: y_def)
  then have e: "js_rem x 360 = 360 * y - 360 * of_int \<lceil>y\<rceil>" by (simp add: js_rem_def y_def)
  have "y \<le> of_int \<lceil>y\<rceil>" "of_int \<lceil>y\<rceil> < y + 1"
    by linarith+
  then show ?thesis unfolding e by linarith
qed



lemma norm_range: "0 \<le> js_rem (js_rem d 360 + 360) 360 \<and> js_rem (js_rem d 360 + 360) 360 < 360"
proof -
  have "0 \<le> js_rem d 360 + 360"
    using js_rem_nonneg [of d] js_rem_neg [of d] by (cases "0 \<le> d") auto
  then show ?thesis by (rule js_rem_nonneg)
qed

lemma norm_dir_range: "0 \<le> norm_dir sp d \<and> norm_dir sp d < 360"
  using norm_range [of d] by (simp add: norm_dir_def)





section \<open>The queue stays sorted\<close>









section \<open>Duplicates\<close>





section \<open>Counts and tallies\<close>

lemma cnt_bump_existing:
  assumes "bump_existing b d s = Inr s'"
  shows "cnt s' b' = cnt s b' + (if b' = b then d else 0)"
proof (cases b)
  case Sentinel
  with assms have "s' = s\<lparr>rose0 := rose0 s + d\<rparr>" by (simp add: bump_existing_def)
  with Sentinel show ?thesis by (cases b') (simp_all add: cnt_def)
next
  case (Cell a band)
  with assms have rng: "0 \<le> a" "nat a < length (rose s)" "band < length (rose s ! nat a)"
    and s': "s' = s\<lparr>rose := (rose s)[nat a := (rose s ! nat a)[band := rose s ! nat a ! band + d]]\<rparr>"
    by (auto simp: bump_existing_def split: if_splits)
  show ?thesis
  proof (cases b')
    case Sentinel
    with Cell s' show ?thesis by (simp add: cnt_def)
  next
    case c: (Cell a' band')
    show ?thesis
    proof (cases "a' = a")
      case True
      with c Cell s' rng show ?thesis
        by (cases "band' = band") (simp_all add: cnt_def)
    next
      case False
      with rng have "0 \<le> a' \<Longrightarrow> nat a' \<noteq> nat a" by simp
      with c Cell s' False show ?thesis by (auto simp: cnt_def)
    qed
  qed
qed

lemma bump_existing_defined:
  assumes "cnt s b \<noteq> 0"
  shows "\<exists>s'. bump_existing b d s = Inr s'"
  using assms by (cases b) (auto simp: bump_existing_def cnt_def split: if_splits)

lemma pad_nth:
  "j < length (row @ replicate k (0::int)) \<Longrightarrow>
     (row @ replicate k 0) ! j = (if j < length row then row ! j else 0)"
  by (simp add: nth_append)

lemma cnt_count_new:
  assumes "count_new cfg m s = Inr s'"
  shows "cnt s' b' = cnt s b' + (if b' = bucket_of cfg (length (rose s)) m then 1 else 0)"
proof (cases "bucket_of cfg (length (rose s)) m")
  case Sentinel
  with assms have "s' = s\<lparr>rose0 := rose0 s + 1\<rparr>" by (simp add: count_new_def)
  with Sentinel show ?thesis by (cases b') (simp_all add: cnt_def)
next
  case (Cell a band)
  define row where "row = rose s ! nat a"
  define row' where "row' = row @ replicate (Suc band - length row) 0"
  from Cell assms have rng: "0 \<le> a" "nat a < length (rose s)"
    and s': "s' = s\<lparr>rose := (rose s)[nat a := row'[band := row' ! band + 1]]\<rparr>"
    by (auto simp: count_new_def Let_def row_def row'_def split: if_splits)
  have len: "length row' = max (length row) (Suc band)"
    by (auto simp: row'_def)
  have nth: "row' ! j = (if j < length row then row ! j else 0)" if "j < length row'" for j
    using that unfolding row'_def by (rule pad_nth)
  show ?thesis
  proof (cases b')
    case Sentinel
    with Cell s' show ?thesis by (simp add: cnt_def)
  next
    case c: (Cell a' band')
    show ?thesis
    proof (cases "a' = a")
      case False
      with rng have "0 \<le> a' \<Longrightarrow> nat a' \<noteq> nat a" by simp
      with c Cell s' False show ?thesis by (auto simp: cnt_def)
    next
      case True
      have new: "cnt s' (Cell a band') =
          (if band' < length row' then (row'[band := row' ! band + 1]) ! band' else 0)"
        using rng s' by (simp add: cnt_def)
      have old: "cnt s (Cell a band') = (if band' < length row then row ! band' else 0)"
        using rng by (simp add: cnt_def row_def)
      show ?thesis
      proof (cases "band' = band")
        case b: True
        have "band < length row'" using len by simp
        with nth [OF this] new old b c Cell True show ?thesis by simp
      next
        case b: False
        show ?thesis
        proof (cases "band' < length row'")
          case l: True
          with nth [OF l] new old b c Cell True show ?thesis by simp
        next
          case l: False
          with len have "\<not> band' < length row" by simp
          with l new old b c Cell True show ?thesis by simp
        qed
      qed
    qed
  qed
qed

lemma count_new_defined:
  assumes "bucket_of cfg (length (rose s)) m = Sentinel
           \<or> (\<exists>a band. bucket_of cfg (length (rose s)) m = Cell a band \<and> 0 \<le> a \<and> nat a < length (rose s))"
  shows "\<exists>s'. count_new cfg m s = Inr s'"
  using assms by (auto simp: count_new_def Let_def)

lemma tally_Nil: "tally cfg n [] b = 0"
  by (simp add: tally_def)

lemma tally_Cons:
  "tally cfg n (x # xs) b = (if bucket_of cfg n x = b then 1 else 0) + tally cfg n xs b"
  by (simp add: tally_def)

lemma tally_snoc:
  "tally cfg n (xs @ [x]) b = tally cfg n xs b + (if bucket_of cfg n x = b then 1 else 0)"
  by (simp add: tally_def)

lemma tally_le: "tally cfg n xs b \<le> int (length xs)"
  by (simp add: tally_def)

lemma tally_nonneg: "0 \<le> tally cfg n xs b"
  by (simp add: tally_def)

section \<open>The arc of a normalised direction\<close>

lemma new_numarcs_pos: "0 < new_numarcs a"
proof -
  define x where "x = (if a > 0 then a else 20)"
  have "0 < x" by (simp add: x_def)
  then have "0 < 360 / x" by simp
  then have "0 < \<lceil>360 / x\<rceil>" by linarith
  then show ?thesis by (simp add: new_numarcs_def x_def)
qed

lemma arc_index_range:
  assumes "0 < n" "0 \<le> dir" "dir < 360"
  shows "0 \<le> arc_index (360 / real n) n dir \<and> arc_index (360 / real n) n dir < int n"
proof -
  define x where "x = dir / (360 / real n)"
  have x: "x = dir * real n / 360" by (simp add: x_def)
  have x0: "0 \<le> x" using assms by (simp add: x)
  have "dir * real n < 360 * real n" using assms by simp
  then have xn: "x < real n" by (simp add: x)
  have r0: "0 \<le> round x" using x0 unfolding round_def by linarith
  have rn: "round x \<le> int n" using xn unfolding round_def by linarith
  show ?thesis
    using r0 rn assms(1) unfolding arc_index_def x_def [symmetric] Let_def by auto
qed

section \<open>The frequency check never fires on a counted state\<close>

lemma indicator_sum_le_1:
  "(\<Sum>j<L. if b = Cell a j then 1 else 0) \<le> (1::int)"
proof (cases b)
  case Sentinel
  then show ?thesis by simp
next
  case (Cell a' c)
  show ?thesis
  proof (cases "a' = a")
    case True
    have "(\<Sum>j<L. if b = Cell a j then 1 else 0) = (\<Sum>j\<in>{..<L}. if c = j then 1 else (0::int))"
      using Cell True by simp
    also have "\<dots> = (if c \<in> {..<L} then 1 else 0)" by (simp only: sum.delta' finite_lessThan)
    finally show ?thesis by simp
  next
    case False
    with Cell show ?thesis by simp
  qed
qed

lemma tally_row_le:
  "(\<Sum>j<L. tally cfg n xs (Cell a j)) \<le> int (length xs)"
proof (induction xs)
  case Nil
  then show ?case by (simp add: tally_Nil)
next
  case (Cons x xs)
  have "(\<Sum>j<L. tally cfg n (x # xs) (Cell a j))
      = (\<Sum>j<L. if bucket_of cfg n x = Cell a j then 1 else 0) + (\<Sum>j<L. tally cfg n xs (Cell a j))"
    by (simp add: tally_Cons sum.distrib)
  with Cons indicator_sum_le_1 [of "bucket_of cfg n x" a L] show ?case by simp
qed

lemma row_sum_cnt:
  assumes "i < length (rose s)"
  shows "sum_list (rose s ! i) = (\<Sum>j<length (rose s ! i). cnt s (Cell (int i) j))"
proof -
  have "sum_list (rose s ! i) = (\<Sum>j = 0..<length (rose s ! i). rose s ! i ! j)"
    by (rule sum_list_sum_nth)
  also have "\<dots> = (\<Sum>j<length (rose s ! i). rose s ! i ! j)"
    by (simp add: atLeast0LessThan)
  also have "\<dots> = (\<Sum>j<length (rose s ! i). cnt s (Cell (int i) j))"
    using assms by (intro sum.cong) (simp_all add: cnt_def)
  finally show ?thesis .
qed

lemma counted_maxfreq:
  assumes "counted cfg s" "q s \<noteq> []"
  shows "max_arc_frequency s \<le> 1"
proof -
  let ?n = "length (q s)"
  have pos: "0 < real ?n" using assms(2) by simp
  have z: "real_of_int (rose0 s) / real ?n \<le> 1"
  proof -
    have "rose0 s = cnt s Sentinel" by (simp add: cnt_def)
    also have "\<dots> \<le> int ?n" using assms(1) by (simp add: counted_def tally_le)
    finally have "real_of_int (rose0 s) \<le> real ?n" by linarith
    with pos show ?thesis by simp
  qed
  have rows: "arc_freq ?n row \<le> 1" if "row \<in> set (rose s)" for row
  proof -
    from that obtain i where i: "i < length (rose s)" "rose s ! i = row"
      by (auto simp: in_set_conv_nth)
    have "sum_list row = (\<Sum>j<length row. cnt s (Cell (int i) j))"
      using row_sum_cnt [OF i(1)] i(2) by simp
    also have "\<dots> = (\<Sum>j<length row. tally cfg (length (rose s)) (q s) (Cell (int i) j))"
      using assms(1) by (simp add: counted_def)
    also have "\<dots> \<le> int ?n" by (rule tally_row_le)
    finally have "real_of_int (sum_list row) \<le> real ?n" by linarith
    with pos show ?thesis by (simp add: arc_freq_def)
  qed
  have "Max (insert (real_of_int (rose0 s) / real ?n) (arc_freq ?n ` set (rose s))) \<le> 1"
    using z rows by (subst Max_le_iff) auto
  then show ?thesis by (simp add: max_arc_frequency_def)
qed

section \<open>One call at the tail of the queue, under a count cap\<close>

lemma del_bucket_eq: "del_bucket cfg n m = bucket_of cfg n m"
  by (simp add: del_bucket_def bucket_of_def del_band_eq_ins_band)

lemma cnt_q_update: "cnt (s\<lparr>q := xs\<rparr>) b = cnt s b"
  by (simp add: cnt_def split: bucket.splits)

lemma evict_within_cap:
  assumes "max_data_age cfg = 0" "length xs \<le> max_data_count cfg"
  shows "evict cfg now xs s = (Returned, s\<lparr>q := xs\<rparr>)"
  using assms by (cases xs) (simp_all add: evict_cond_def)

lemma evict_one_over_cap:
  assumes "max_data_age cfg = 0" "length rest = max_data_count cfg" "0 < max_data_count cfg"
    and "bump_existing (del_bucket cfg (length (rose s)) d) (- 1) (s\<lparr>q := rest\<rparr>) = Inr s1"
  shows "evict cfg now (d # rest) s = (Returned, s1)"
proof -
  have c: "evict_cond cfg now (d # rest) = Inr True"
    using assms(1,2,3) by (simp add: evict_cond_def)
  from bump_existing_frame [OF assms(4)] have q1: "q s1 = rest" by simp
  have "evict cfg now rest s1 = (Returned, s1\<lparr>q := rest\<rparr>)"
    using assms(1,2) by (intro evict_within_cap) simp_all
  also have "s1\<lparr>q := rest\<rparr> = s1" using q1 by simp
  finally show ?thesis using c assms(4) by simp
qed

lemma trim_counted:
  assumes n: "length (rose s) = n"
    and cap: "max_data_age cfg = 0" "max_data_count cfg = N" "0 < N"
    and inv: "counted cfg s" "length (q s) \<le> N"
  shows "\<exists>s1. evict cfg now (q s @ [m]) s = (Returned, s1)
           \<and> q s1 = drop (length (q s) + 1 - N) (q s) @ [m]
           \<and> length (rose s1) = n
           \<and> preloading s1 = preloading s
           \<and> (\<forall>b. cnt s1 b = tally cfg n (drop (length (q s) + 1 - N) (q s)) b)"
proof (cases "length (q s) < N")
  case True
  then have j: "length (q s) + 1 - N = 0" by simp
  have "evict cfg now (q s @ [m]) s = (Returned, s\<lparr>q := q s @ [m]\<rparr>)"
    using cap True by (intro evict_within_cap) simp_all
  moreover have "\<forall>b. cnt (s\<lparr>q := q s @ [m]\<rparr>) b = tally cfg n (q s) b"
    using inv(1) n by (simp add: cnt_q_update counted_def)
  ultimately show ?thesis using n j by simp
next
  case False
  with inv(2) have len: "length (q s) = N" by simp
  with cap(3) obtain d rest where q: "q s = d # rest" by (cases "q s") auto
  from len have j: "length (q s) + 1 - N = 1" by simp
  let ?b = "bucket_of cfg n d"
  let ?s0 = "s\<lparr>q := rest @ [m]\<rparr>"
  have "cnt s ?b = tally cfg n (d # rest) ?b"
    using inv(1) n q by (simp add: counted_def)
  then have "cnt s ?b \<noteq> 0"
    using tally_nonneg [of cfg n rest ?b] by (simp add: tally_Cons)
  then have "cnt ?s0 ?b \<noteq> 0" by (simp add: cnt_q_update)
  from bump_existing_defined [OF this, of "- 1"]
  obtain s1 where b: "bump_existing ?b (- 1) ?s0 = Inr s1" by blast
  from bump_existing_frame [OF b]
  have f: "q s1 = rest @ [m]" "length (rose s1) = n" "preloading s1 = preloading s"
    using n by simp_all
  have ev: "evict cfg now (q s @ [m]) s = (Returned, s1)"
    unfolding q using cap len q b n
    by (simp only: append_Cons) (rule evict_one_over_cap, simp_all add: del_bucket_eq)
  have "cnt s1 b' = tally cfg n rest b'" for b'
  proof -
    have "cnt s1 b' = cnt s b' + (if b' = ?b then - 1 else 0)"
      using cnt_bump_existing [OF b, of b'] by (simp add: cnt_q_update)
    also have "cnt s b' = tally cfg n (d # rest) b'"
      using inv(1) n q by (simp add: counted_def)
    finally show ?thesis by (auto simp: tally_Cons)
  qed
  with ev f j q show ?thesis by simp
qed

lemma bucket_of_mk_msg_countable:
  assumes "0 < n" "arc cfg = 360 / real n"
  shows "bucket_of cfg n (mk_msg d sp w) = Sentinel
         \<or> (\<exists>a band. bucket_of cfg n (mk_msg d sp w) = Cell a band \<and> 0 \<le> a \<and> nat a < n)"
proof -
  let ?m = "mk_msg d sp w"
  have "m_dir ?m = norm_dir (m_speed ?m) d" by (simp add: mk_msg_def Let_def)
  with norm_dir_range [of "m_speed ?m" d] have "0 \<le> m_dir ?m" "m_dir ?m < 360" by simp_all
  from arc_index_range [OF assms(1) this] assms(2)
  have "0 \<le> arc_index (arc cfg) n (m_dir ?m)" "arc_index (arc cfg) n (m_dir ?m) < int n"
    by simp_all
  then show ?thesis by (auto simp: bucket_of_def)
qed

lemma update_priv_push:
  assumes n: "length (rose s) = n" "0 < n" "arc cfg = 360 / real n"
    and cap: "max_data_age cfg = 0" "max_data_count cfg = N" "0 < N"
    and inv: "counted cfg s" "length (q s) \<le> N"
    and late: "q s = [] \<or> m_when (last (q s)) < w"
  shows "\<exists>s'. update_priv cfg now d sp w s = (Returned, s')
           \<and> q s' = drop (length (q s) + 1 - N) (q s) @ [mk_msg d sp w]
           \<and> length (rose s') = n
           \<and> preloading s' = preloading s
           \<and> counted cfg s'"
proof -
  let ?m = "mk_msg d sp w"
  let ?Q = "drop (length (q s) + 1 - N) (q s)"
  have w: "m_when ?m = w" by (simp add: mk_msg_def Let_def)
  have ins: "q_insert ?m (q s) = Some (q s @ [?m])"
    using late by (auto simp: q_insert_def w)
  from trim_counted [OF n(1) cap inv, of now ?m]
  obtain s1 where ev: "evict cfg now (q s @ [?m]) s = (Returned, s1)"
    and q1: "q s1 = ?Q @ [?m]" and r1: "length (rose s1) = n"
    and p1: "preloading s1 = preloading s"
    and c1: "\<forall>b. cnt s1 b = tally cfg n ?Q b" by blast
  from bucket_of_mk_msg_countable [OF n(2,3), of d sp w] r1
  have "\<exists>s2. count_new cfg ?m s1 = Inr s2"
    by (intro count_new_defined) simp
  then obtain s2 where cn: "count_new cfg ?m s1 = Inr s2" by blast
  from count_new_frame [OF cn] q1 r1 p1
  have f2: "q s2 = ?Q @ [?m]" "length (rose s2) = n" "preloading s2 = preloading s" by simp_all
  have c2: "counted cfg s2"
    unfolding counted_def f2
    using cnt_count_new [OF cn] c1 r1 by (auto simp: tally_snoc)
  have "q s2 \<noteq> []" using f2 by simp
  from counted_maxfreq [OF c2 this] have mf: "\<not> maxfreq s2 > 1"
    by (simp add: maxfreq_is_max_arc_frequency)
  have "update_window cfg now ?m s = Some (Inr s2)"
    by (simp add: update_window_def ins ev cn)
  with mf have "update_priv cfg now d sp w s = (Returned, s2)"
    by (simp add: update_priv_def)
  with f2 c2 show ?thesis by blast
qed

section \<open>A sequence of calls with increasing timestamps, under a count cap\<close>

lemma update_seq_push:
  assumes n: "length (rose s) = n" "0 < n" "arc cfg = 360 / real n"
    and cap: "max_data_age cfg = 0" "max_data_count cfg = N" "0 < N"
    and inv: "counted cfg s" "length (q s) \<le> N"
    and inc: "sorted_wrt (<) (map call_when cs)"
    and late: "q s = [] \<or> cs = [] \<or> m_when (last (q s)) < call_when (hd cs)"
  shows "\<exists>s'. update_seq cfg cs s = (replicate (length cs) Returned, s')
           \<and> q s' = drop (length (q s) + length cs - N) (q s @ map call_msg cs)
           \<and> length (rose s') = n
           \<and> counted cfg s'"
  using inv inc late n(1)
proof (induction cs arbitrary: s)
  case Nil
  then show ?case by simp
next
  case (Cons c cs)
  obtain now d sp w where c: "c = (now, d, sp, w)" by (cases c)
  let ?m = "mk_msg d sp w"
  let ?j = "length (q s) + 1 - N"
  from Cons.prems(4) c have late1: "q s = [] \<or> m_when (last (q s)) < w" by simp
  from update_priv_push [OF Cons.prems(5) n(2,3) cap Cons.prems(1,2) late1, of now d sp]
  obtain s1 where u: "update_priv cfg now d sp w s = (Returned, s1)"
    and q1: "q s1 = drop ?j (q s) @ [?m]" and r1: "length (rose s1) = n"
    and c1: "counted cfg s1" by blast
  have l1: "length (q s1) \<le> N" using q1 Cons.prems(2) cap(3) by simp
  have inc1: "sorted_wrt (<) (map call_when cs)" using Cons.prems(3) by simp
  have w: "m_when ?m = w" by (simp add: mk_msg_def Let_def)
  have late2: "q s1 = [] \<or> cs = [] \<or> m_when (last (q s1)) < call_when (hd cs)"
  proof (cases cs)
    case Nil
    then show ?thesis by simp
  next
    case (Cons c' cs')
    with Cons.prems(3) c have "w < call_when c'" by simp
    with Cons q1 w show ?thesis by simp
  qed
  from Cons.IH [OF c1 l1 inc1 late2 r1]
  obtain s' where us: "update_seq cfg cs s1 = (replicate (length cs) Returned, s')"
    and q': "q s' = drop (length (q s1) + length cs - N) (q s1 @ map call_msg cs)"
    and r': "length (rose s') = n" and c': "counted cfg s'" by blast
  have jle: "?j \<le> length (q s)" using cap(3) by simp
  have "q s1 @ map call_msg cs = drop ?j (q s @ ?m # map call_msg cs)"
    using q1 jle by simp
  then have "q s' = drop (length (q s1) + length cs - N + ?j) (q s @ ?m # map call_msg cs)"
    using q' by (simp only: drop_drop)
  moreover have "length (q s1) + length cs - N + ?j = length (q s) + length (c # cs) - N"
    using q1 Cons.prems(2) cap(3) by (cases "length (q s) < N") auto
  ultimately have "q s' = drop (length (q s) + length (c # cs) - N) (q s @ map call_msg (c # cs))"
    using c by simp
  moreover have "update_seq cfg (c # cs) s = (replicate (length (c # cs)) Returned, s')"
    using c u us by simp
  ultimately show ?case using r' c' by blast
qed

lemma new_state_counted: "counted cfg (new_state a)"
proof -
  have "cnt (new_state a) b = 0" for b
    by (cases b) (auto simp: cnt_def new_state_def)
  then show ?thesis by (simp add: counted_def new_state_def tally_Nil)
qed

text \<open>
  Claim C5. With \<open>max_data_count = N > 0\<close> and no age cap, \<open>N + k\<close> calls with strictly
  increasing timestamps on a fresh wind rose all return, the queue then holds exactly the
  \<open>N\<close> newest readings in order, and the count of every bucket is the number of those
  readings classified into it (0 for a cell the rose does not have).
\<close>
theorem count_cap_keeps_newest:
  assumes "0 < N" "length cs = N + k" "sorted_wrt (<) (map call_when cs)"
  shows "\<exists>s'. update_seq (new_config N 0 a bs) cs (new_state a) = (replicate (N + k) Returned, s')
          \<and> q s' = map call_msg (drop k cs)
          \<and> length (q s') = N
          \<and> (\<forall>b. cnt s' b = tally (new_config N 0 a bs) (length (rose s')) (q s') b)"
proof -
  let ?cfg = "new_config N 0 a bs"
  let ?n = "new_numarcs a"
  have n: "length (rose (new_state a)) = ?n" "0 < ?n" "arc ?cfg = 360 / real ?n"
    by (simp_all add: new_state_def new_config_def new_numarcs_pos)
  have cap: "max_data_age ?cfg = 0" "max_data_count ?cfg = N"
    by (simp_all add: new_config_def)
  have q0: "q (new_state a) = []" by (simp add: new_state_def)
  have l0: "length (q (new_state a)) \<le> N" by (simp add: q0)
  have late0: "q (new_state a) = [] \<or> cs = [] \<or> m_when (last (q (new_state a))) < call_when (hd cs)"
    by (simp add: q0)
  from update_seq_push [OF n cap assms(1) new_state_counted l0 assms(3) late0] q0
  obtain s' where us: "update_seq ?cfg cs (new_state a) = (replicate (length cs) Returned, s')"
    and q': "q s' = drop (length cs - N) (map call_msg cs)"
    and r': "length (rose s') = ?n" and c': "counted ?cfg s'" by auto
  from q' assms(2) have qq: "q s' = map call_msg (drop k cs)" by (simp add: drop_map)
  with assms(2) have "length (q s') = N" by simp
  with us qq c' assms(2) show ?thesis by (auto simp: counted_def)
qed

theorem count_cap_keeps_newest_witness:
  "\<exists>s'. update_seq (new_config 1 0 360 [200]) [(9, 0, Num 3, 10), (9, 0, Num 0, 20)] (new_state 360)
          = ([Returned, Returned], s')
       \<and> q s' = [\<lparr>m_dir = 0, m_speed = Num 0, m_when = 20\<rparr>]
       \<and> cnt s' Sentinel = 1 \<and> cnt s' (Cell 0 0) = 0"
proof -
  let ?cs = "[(9, 0, Num 3, 10), (9, 0, Num 0, 20)] :: (real \<times> real \<times> jsnum \<times> real) list"
  have h: "(0::nat) < 1" "length ?cs = 1 + 1" "sorted_wrt (<) (map call_when ?cs)" by simp_all
  have m: "call_msg (9, 0, Num 0, 20) = \<lparr>m_dir = 0, m_speed = Num 0, m_when = 20\<rparr>"
    by (simp add: mk_msg_def norm_dir_def Let_def)
  from count_cap_keeps_newest [OF h, of 360 "[200]"]
  obtain s' where a: "update_seq (new_config 1 0 360 [200]) ?cs (new_state 360) = (replicate (1 + 1) Returned, s')"
    and b: "q s' = map call_msg (drop 1 ?cs)"
    and c: "\<forall>b. cnt s' b = tally (new_config 1 0 360 [200]) (length (rose s')) (q s') b" by blast
  have q': "q s' = [\<lparr>m_dir = 0, m_speed = Num 0, m_when = 20\<rparr>]" using b m by simp
  have "cnt s' Sentinel = 1 \<and> cnt s' (Cell 0 0) = 0"
    using c unfolding q' by (simp add: tally_def bucket_of_def)
  moreover have "replicate (1 + 1) Returned = [Returned, Returned]" by (simp add: numeral_2_eq_2)
  ultimately show ?thesis using a q' by auto
qed

section \<open>Decoding a target beyond the bands\<close>








section \<open>Defects\<close>

text \<open>
  Claim C1 fails on the code. With an age cap of 1000 ms, a zero-speed reading that is
  already too old is queued, evicted again (which decrements the zero-speed bucket before
  the reading was ever counted) and then the loop condition reads \<open>this.q[0].when\<close> on
  the empty queue and throws. The next call returns normally with one queued reading and
  a sum of counts of 0.
\<close>
theorem stale_calm_reading_breaks_counts:
  "update_priv (new_config 0 1000 20 [5, 10, 200]) 1700000010000 0 (Num 0) 1700000000000 (new_state 20)
       = (Threw TypeError, (new_state 20)\<lparr>rose0 := - 1\<rparr>)
   \<and> update_seq (new_config 0 1000 20 [5, 10, 200])
       [(1700000010000, 0, Num 0, 1700000000000), (1700000010000, 0, Num 0, 1700000010000)]
       (new_state 20)
     = ([Threw TypeError, Returned],
        (new_state 20)\<lparr>q := [\<lparr>m_dir = 0, m_speed = Num 0, m_when = 1700000010000\<rparr>]\<rparr>)
   \<and> total_count ((new_state 20)\<lparr>q := [\<lparr>m_dir = 0, m_speed = Num 0, m_when = 1700000010000\<rparr>]\<rparr>) = 0
   \<and> length (q ((new_state 20)\<lparr>q := [\<lparr>m_dir = 0, m_speed = Num 0, m_when = 1700000010000\<rparr>]\<rparr>)) = 1"
  by code_simp

text \<open>
  Claim C2 fails on the code. The decoder rebuilds the direction \<open>(arc + 0.5) * arcwidth\<close>,
  which is the upper edge of the arc: \<open>#update\<close> rounds it to the next arc. A reading at
  0 degrees with speed 3 is counted in arc 0, band 0 when inserted directly, and in arc 1,
  band 0 after encoding and decoding with the same 18 arcs and bands \<open>[5, 10, 200]\<close>.
\<close>
theorem roundtrip_shifts_arc:
  "publishHistory \<lparr>req_numarcs = 18, req_bands = [5, 10, 200], req_when = None\<rparr>
     [\<lparr>r_dir = 0, r_speed = Num 3, r_when = 1700000000000\<rparr>]
   = \<lparr>e_clock = Some (1700000000000, 1700000001000), e_last = Num 0,
      e_when = Some 1700000000000, e_records = [DNum (Num 0)]\<rparr>
   \<and> decode_delta (new_config 0 0 20 [5, 10, 200]) 18
       \<lparr>d_when = 1700000000000, d_step = 1000, d_records = [DNum (Num 0)]\<rparr>
     = Inr [(10, Num (5 / 2), 0)]
   \<and> decoded_buckets (new_config 0 0 20 [5, 10, 200]) 18 [(10, Num (5 / 2), 0)] = [Cell 1 0]
   \<and> direct_buckets (new_config 0 0 20 [5, 10, 200]) 18
       [\<lparr>r_dir = 0, r_speed = Num 3, r_when = 1700000000000\<rparr>] = [Cell 0 0]
   \<and> preload (new_config 0 0 20 [5, 10, 200])
       (Delta \<lparr>d_when = 1700000000000, d_step = 1000, d_records = [DNum (Num 0)]\<rparr>) (new_state 20)
     = (Returned, (new_state 20)\<lparr>preloading := True\<rparr>,
        Some \<lparr>t_when = 1700000000000, t_off = 0, t_a = [(10, Num (5 / 2), 0)]\<rparr>)
   \<and> run_batch (new_config 0 0 20 [5, 10, 200]) (\<lambda>k. 1700000000000)
       \<lparr>t_when = 1700000000000, t_off = 0, t_a = [(10, Num (5 / 2), 0)]\<rparr>
       ((new_state 20)\<lparr>preloading := True\<rparr>)
     = (Returned,
        (new_state 20)\<lparr>q := [\<lparr>m_dir = 10, m_speed = Num (5 / 2), m_when = 1700000000000\<rparr>],
           rose := (replicate 18 [])[1 := [1]]\<rparr>, None)
   \<and> update_priv (new_config 0 0 20 [5, 10, 200]) 1700000000000 0 (Num 3) 1700000000000 (new_state 20)
     = (Returned,
        (new_state 20)\<lparr>q := [\<lparr>m_dir = 0, m_speed = Num 3, m_when = 1700000000000\<rparr>],
           rose := (replicate 18 [])[0 := [1]]\<rparr>)"
  by code_simp

end
